theory Spec2Isabelle
  imports Main "HOL-Library.Word"
begin

unbundle bit_operations_syntax

section \<open>The gunzip sketch of \<^verbatim>\<open>cab/gunzip.c\<close>\<close>

text \<open>
  The program reads a gzip file into memory, parses the header, and walks the DEFLATE block
  structure of the payload. Its Huffman part is a stub (\<^verbatim>\<open>init_hufftree\<close> and
  \<^verbatim>\<open>readsym\<close> are marked XXX) and the two output operations of the symbol loop are
  comments. The model follows the C text function by function.

  Conventions of the model:
  \<^item> a pointer into a byte buffer is the list of the bytes from the pointer to the end of the
    allocation, so \<^verbatim>\<open>p + k\<close> is \<open>drop k p\<close>;
  \<^item> a read or write outside an array is undefined behaviour in C; the model makes it the
    outcome \<open>UndefinedBehaviour\<close>;
  \<^item> \<^verbatim>\<open>fatal(msg)\<close> prints and exits with status 1; each call site is one constructor of
    \<open>error\<close>;
  \<^item> \<^verbatim>\<open>size_t\<close> offsets are \<open>nat\<close>; the one subtraction that can wrap
    (\<^verbatim>\<open>size - off - 8\<close>) and the 32-bit addition \<^verbatim>\<open>4 + extra_size\<close> are written out
    modulo \<open>2 ^ 64\<close> and \<open>2 ^ 32\<close>;
  \<^item> the \<^verbatim>\<open>int\<close> results of \<^verbatim>\<open>getbit\<close> and \<^verbatim>\<open>getbits\<close> are never negative and
    are \<open>nat\<close>; for \<open>n \<le> 30\<close> the C computation of \<^verbatim>\<open>getbits\<close> does not overflow.
\<close>

subsection \<open>Outcomes\<close>

datatype error =
    FileTooSmall                          \<comment> \<open>\<^verbatim>\<open>fatal("file too small\n")\<close>\<close>
  | InvalidFileHeader                     \<comment> \<open>\<^verbatim>\<open>fatal("invalid file header\n")\<close>\<close>
  | UnexpectedCompressionMethod "8 word"  \<comment> \<open>\<^verbatim>\<open>fatal("unexpected compression method %d\n", gz[2])\<close>\<close>
  | InvalidBlock                          \<comment> \<open>\<^verbatim>\<open>fatal("invalid block\n")\<close>\<close>
  | UnsupportedUncompressedBlock          \<comment> \<open>\<^verbatim>\<open>fatal("unsupported uncompressed block\n")\<close>\<close>
  | UndefinedBehaviour                    \<comment> \<open>an access outside an array\<close>

type_synonym 'a res = "error + 'a"

type_synonym byte = "8 word"

subsection \<open>Little-endian reads\<close>

text \<open>\<^verbatim>\<open>return d[1] << 8 | d[0];\<close>\<close>

definition little_uint16t :: "byte list \<Rightarrow> (16 word) res" where
  "little_uint16t d =
     (if 1 < length d then Inr (push_bit 8 (ucast (d ! 1)) OR ucast (d ! 0))
      else Inl UndefinedBehaviour)"

text \<open>
  \<^verbatim>\<open>return d[3] << 24 | d[2] << 16 | d[1] << 8 | d[0];\<close> The operands are promoted to
  \<^verbatim>\<open>int\<close>; the value returned as \<^verbatim>\<open>uint32_t\<close> is the 32-bit pattern (for
  \<open>d[3] \<ge> 128\<close> the shift leaves the range of \<^verbatim>\<open>int\<close>, and compilers produce the
  two's complement pattern modelled here).
\<close>

definition little_uint32t :: "byte list \<Rightarrow> (32 word) res" where
  "little_uint32t d =
     (if 3 < length d
      then Inr (push_bit 24 (ucast (d ! 3)) OR push_bit 16 (ucast (d ! 2)) OR
                push_bit 8 (ucast (d ! 1)) OR ucast (d ! 0))
      else Inl UndefinedBehaviour)"

subsection \<open>The bit reader\<close>

text \<open>
  \<^verbatim>\<open>curbit\<close> is an \<^verbatim>\<open>int\<close> that \<^verbatim>\<open>bitstream_init\<close> sets to 0 and \<^verbatim>\<open>getbit\<close> keeps in
  \<open>0..15\<close>; \<^verbatim>\<open>curword\<close> is a byte offset into \<^verbatim>\<open>source\<close>.
\<close>

record Bitstream =
  curbit :: nat
  curword :: nat
  curword_val :: "16 word"
  source :: "byte list"
  source_len :: nat

definition bitstream_init :: "byte list \<Rightarrow> nat \<Rightarrow> Bitstream res" where
  "bitstream_init src len =
     (case little_uint16t src of
        Inl e \<Rightarrow> Inl e
      | Inr v \<Rightarrow> Inr \<lparr>curbit = 0, curword = 0, curword_val = v, source = src, source_len = len\<rparr>)"

text \<open>
  \<^verbatim>\<open>getbit\<close>: the bit is taken from the loaded 16-bit word; a new word is loaded only
  while \<^verbatim>\<open>curword < source_len\<close>, otherwise the old word stays.
\<close>

definition getbit :: "Bitstream \<Rightarrow> (nat \<times> Bitstream) res" where
  "getbit bs =
     (let b = unat (drop_bit (curbit bs) (curword_val bs) AND 1);
          cb = curbit bs + 1
      in if cb > 15 then
           (let cw = curword bs + 2 in
            if cw < source_len bs then
              (case little_uint16t (drop cw (source bs)) of
                 Inl e \<Rightarrow> Inl e
               | Inr v \<Rightarrow> Inr (b, bs\<lparr>curbit := 0, curword := cw, curword_val := v\<rparr>))
            else Inr (b, bs\<lparr>curbit := 0, curword := cw\<rparr>))
         else Inr (b, bs\<lparr>curbit := cb\<rparr>))"

text \<open>
  \<^verbatim>\<open>for (int i = 0; i < n; ++i) bits = bits | (getbit(bs) << i);\<close>
\<close>

function getbits_loop :: "Bitstream \<Rightarrow> nat \<Rightarrow> nat \<Rightarrow> nat \<Rightarrow> (nat \<times> Bitstream) res" where
  "getbits_loop bs n i bits =
     (if i < n then
        (case getbit bs of
           Inl e \<Rightarrow> Inl e
         | Inr (b, bs') \<Rightarrow> getbits_loop bs' n (i + 1) (bits OR push_bit i b))
      else Inr (bits, bs))"
  by pat_completeness auto
termination
  by (relation "measure (\<lambda>(bs, n, i, bits). n - i)") auto

declare getbits_loop.simps [simp del]

definition getbits :: "Bitstream \<Rightarrow> nat \<Rightarrow> (nat \<times> Bitstream) res" where
  "getbits bs n = getbits_loop bs n 0 0"

subsection \<open>The Huffman stubs\<close>

text \<open>
  \<^verbatim>\<open>struct HuffTree {};\<close> has no fields. \<^verbatim>\<open>init_hufftree\<close> has the body
  \<^verbatim>\<open>// XXX\<close> and stores nothing; \<^verbatim>\<open>readsym\<close> has the body \<^verbatim>\<open>// XXX return 0;\<close>: it
  reads no bit and leaves the bit reader as it is.
\<close>

datatype HuffTree = HuffTree

definition init_hufftree :: "int list \<Rightarrow> nat \<Rightarrow> HuffTree" where
  "init_hufftree nodelengths nodecount = HuffTree"

definition readsym :: "HuffTree \<Rightarrow> Bitstream \<Rightarrow> (int \<times> Bitstream) res" where
  "readsym ht bs = Inr (0, bs)"

text \<open>
  The functions that call \<^verbatim>\<open>readsym\<close> are modelled over the symbol reader they call, the
  parameter \<open>rs\<close>: what they do with a decoded symbol is then stated for every symbol, not
  only for the 0 of the stub. The program itself is the instance \<open>rs = readsym\<close>.
\<close>

type_synonym symreader = "HuffTree \<Rightarrow> Bitstream \<Rightarrow> (int \<times> Bitstream) res"

subsection \<open>Code lengths of a dynamic block\<close>

text \<open>
  \<^verbatim>\<open>for (int j = i; j < i+n; ++j) lengths[j] = v;\<close> on an array of \<open>length lengths\<close>
  entries.
\<close>

definition fill_lengths :: "int list \<Rightarrow> nat \<Rightarrow> nat \<Rightarrow> int \<Rightarrow> (int list) res" where
  "fill_lengths lengths i n v =
     (if i + n \<le> length lengths
      then Inr (take i lengths @ replicate n v @ drop (i + n) lengths)
      else Inl UndefinedBehaviour)"

text \<open>
  The loop of \<^verbatim>\<open>deflate_decode_pretree\<close>, from the index \<open>i\<close> on. There is no check of
  \<open>i\<close> against \<open>num_lengths\<close> inside a run and none of \<open>i - 1\<close> for code 16.
\<close>

function deflate_decode_pretree_loop ::
  "symreader \<Rightarrow> HuffTree \<Rightarrow> Bitstream \<Rightarrow> int list \<Rightarrow> nat \<Rightarrow> nat \<Rightarrow> (Bitstream \<times> int list) res"
where
  "deflate_decode_pretree_loop rs pretree bs lengths num_lengths i =
     (if i < num_lengths then
        (case rs pretree bs of
           Inl e \<Rightarrow> Inl e
         | Inr (code, bs1) \<Rightarrow>
             if code \<le> 15 then
               (if i < length lengths
                then deflate_decode_pretree_loop rs pretree bs1 (lengths[i := code]) num_lengths (i + 1)
                else Inl UndefinedBehaviour)
             else if code = 16 then
               (case getbits bs1 2 of
                  Inl e \<Rightarrow> Inl e
                | Inr (v, bs2) \<Rightarrow>
                    if i = 0 \<or> length lengths < i then Inl UndefinedBehaviour
                    else
                      (case fill_lengths lengths i (3 + v) (lengths ! (i - 1)) of
                         Inl e \<Rightarrow> Inl e
                       | Inr lengths' \<Rightarrow>
                           deflate_decode_pretree_loop rs pretree bs2 lengths' num_lengths (i + (3 + v))))
             else if code = 17 then
               (case getbits bs1 3 of
                  Inl e \<Rightarrow> Inl e
                | Inr (v, bs2) \<Rightarrow>
                    (case fill_lengths lengths i (3 + v) 0 of
                       Inl e \<Rightarrow> Inl e
                     | Inr lengths' \<Rightarrow>
                         deflate_decode_pretree_loop rs pretree bs2 lengths' num_lengths (i + (3 + v))))
             else
               (case getbits bs1 7 of
                  Inl e \<Rightarrow> Inl e
                | Inr (v, bs2) \<Rightarrow>
                    (case fill_lengths lengths i (11 + v) 0 of
                       Inl e \<Rightarrow> Inl e
                     | Inr lengths' \<Rightarrow>
                         deflate_decode_pretree_loop rs pretree bs2 lengths' num_lengths (i + (11 + v)))))
      else Inr (bs, lengths))"
  by pat_completeness auto
termination
  by (relation "measure (\<lambda>(rs, pretree, bs, lengths, num_lengths, i). num_lengths - i)") auto

declare deflate_decode_pretree_loop.simps [simp del]

definition deflate_decode_pretree ::
  "symreader \<Rightarrow> HuffTree \<Rightarrow> Bitstream \<Rightarrow> int list \<Rightarrow> nat \<Rightarrow> (Bitstream \<times> int list) res"
where
  "deflate_decode_pretree rs pretree bs lengths num_lengths =
     deflate_decode_pretree_loop rs pretree bs lengths num_lengths 0"

text \<open>
  The code-length code lengths (\<^verbatim>\<open>main\<close>, lines 206-211). The first loop reads
  \<open>num_pretree\<close> values of 3 bits and stores each at \<^verbatim>\<open>pretree_order[i]\<close>; the
  second stores 0 at the rest of the order.
\<close>

definition pretree_order :: "nat list" where
  "pretree_order = [16, 17, 18, 0, 8, 7, 9, 6, 10, 5, 11, 4, 12, 3, 13, 2, 14, 1, 15]"

function pretree_read_loop ::
  "Bitstream \<Rightarrow> int list \<Rightarrow> nat \<Rightarrow> nat \<Rightarrow> (Bitstream \<times> int list \<times> nat) res"
where
  "pretree_read_loop bs pretree_lengths num_pretree i =
     (if i < num_pretree then
        (if i < length pretree_order then
           (case getbits bs 3 of
              Inl e \<Rightarrow> Inl e
            | Inr (v, bs') \<Rightarrow>
                pretree_read_loop bs' (pretree_lengths[pretree_order ! i := int v]) num_pretree (i + 1))
         else Inl UndefinedBehaviour)
      else Inr (bs, pretree_lengths, i))"
  by pat_completeness auto
termination
  by (relation "measure (\<lambda>(bs, pretree_lengths, num_pretree, i). num_pretree - i)") auto

declare pretree_read_loop.simps [simp del]

definition pretree_zero_loop :: "int list \<Rightarrow> nat \<Rightarrow> int list" where
  "pretree_zero_loop pretree_lengths i =
     fold (\<lambda>k a. a[pretree_order ! k := 0]) [i..<19] pretree_lengths"

text \<open>
  \<^verbatim>\<open>int pretree_lengths[19]\<close> is not initialised; both loops together write every
  entry, so the start value \<open>replicate 19 0\<close> is never seen.
\<close>

definition read_pretree_lengths :: "Bitstream \<Rightarrow> nat \<Rightarrow> (Bitstream \<times> int list) res" where
  "read_pretree_lengths bs num_pretree =
     (case pretree_read_loop bs (replicate 19 0) num_pretree 0 of
        Inl e \<Rightarrow> Inl e
      | Inr (bs', pretree_lengths, i) \<Rightarrow> Inr (bs', pretree_zero_loop pretree_lengths i))"

subsection \<open>Length and distance tables\<close>

text \<open>
  \<^verbatim>\<open>main\<close>, lines 164-187. The arrays start as zeros (\<^verbatim>\<open>= {}\<close>); the loops fill them,
  \<^verbatim>\<open>base_length += 1 << extra_len_bits[i]\<close> running along, and
  \<^verbatim>\<open>base_lengths[7*4] = 258\<close> overwrites the last entry.
\<close>

definition extra_len_bits :: "nat list" where
  "extra_len_bits =
     (fold (\<lambda>i a. a[i + 4 := i div 4]) [0..<6 * 4] (replicate (7 * 4 + 1) 0))[7 * 4 := 0]"

definition base_lengths :: "nat list" where
  "base_lengths =
     (fst (fold (\<lambda>i (a, base_length). (a[i := base_length], base_length + 2 ^ (extra_len_bits ! i)))
             [0..<7 * 4 + 1] (replicate (7 * 4 + 1) 0, 3)))[7 * 4 := 258]"

definition extra_dist_bits :: "nat list" where
  "extra_dist_bits = fold (\<lambda>i a. a[i + 2 := i div 2]) [0..<28] (replicate 30 0)"

definition base_dists :: "nat list" where
  "base_dists =
     fst (fold (\<lambda>i (a, base_dist). (a[i := base_dist], base_dist + 2 ^ (extra_dist_bits ! i)))
            [0..<30] (replicate 30 0, 1))"

subsection \<open>The gzip header\<close>

text \<open>
  \<^verbatim>\<open>strlen(p)\<close>: the number of bytes before the first zero byte; undefined when the
  allocation holds none.
\<close>

definition strlen :: "byte list \<Rightarrow> nat res" where
  "strlen p = (if 0 \<in> set p then Inr (length (takeWhile (\<lambda>b. b \<noteq> 0) p)) else Inl UndefinedBehaviour)"

text \<open>
  \<^verbatim>\<open>if (flags & 4) { uint32_t extra_size = little_uint32t(gz + off); off += 4 + extra_size; }\<close>
  The sum \<^verbatim>\<open>4 + extra_size\<close> has the type \<^verbatim>\<open>uint32_t\<close>: it is computed modulo \<open>2 ^ 32\<close>
  and only then added to the \<^verbatim>\<open>size_t\<close> \<^verbatim>\<open>off\<close>.
\<close>

definition skip_extra :: "byte \<Rightarrow> byte list \<Rightarrow> nat \<Rightarrow> nat res" where
  "skip_extra flags gz off =
     (if flags AND 4 \<noteq> 0 then
        (case little_uint32t (drop off gz) of
           Inl e \<Rightarrow> Inl e
         | Inr extra_size \<Rightarrow> Inr (off + unat (4 + extra_size)))
      else Inr off)"

text \<open>
  \<^verbatim>\<open>if (flags & m) { printf("... %s\n", gz + off); off += strlen((char*)gz + off) + 1; }\<close>
  for the name (\<open>m = 8\<close>) and the comment (\<open>m = 16\<close>).
\<close>

definition skip_string :: "byte \<Rightarrow> byte \<Rightarrow> byte list \<Rightarrow> nat \<Rightarrow> nat res" where
  "skip_string flags m gz off =
     (if flags AND m \<noteq> 0 then
        (case strlen (drop off gz) of
           Inl e \<Rightarrow> Inl e
         | Inr l \<Rightarrow> Inr (off + (l + 1)))
      else Inr off)"

text \<open>
  \<^verbatim>\<open>if (flags & 2) { printf("header crc16 %d\n", little_uint16t(gz + off)); off += 2; }\<close>
\<close>

definition skip_crc16 :: "byte \<Rightarrow> byte list \<Rightarrow> nat \<Rightarrow> nat res" where
  "skip_crc16 flags gz off =
     (if flags AND 2 \<noteq> 0 then
        (case little_uint16t (drop off gz) of
           Inl e \<Rightarrow> Inl e
         | Inr v \<Rightarrow> Inr (off + 2))
      else Inr off)"

text \<open>
  The offset of the DEFLATE payload: \<^verbatim>\<open>off = 10\<close>, then the four optional fields in the
  order extra, name, comment, header CRC (\<^verbatim>\<open>main\<close>, lines 131-161; the \<^verbatim>\<open>printf\<close> calls
  write to the standard output and are left out).
\<close>

definition header_offset :: "byte list \<Rightarrow> nat res" where
  "header_offset gz =
     (let flags = gz ! 3 in
      case skip_extra flags gz 10 of
        Inl e \<Rightarrow> Inl e
      | Inr off1 \<Rightarrow>
          (case skip_string flags 8 gz off1 of
             Inl e \<Rightarrow> Inl e
           | Inr off2 \<Rightarrow>
               (case skip_string flags 16 gz off2 of
                  Inl e \<Rightarrow> Inl e
                | Inr off3 \<Rightarrow> skip_crc16 flags gz off3)))"

subsection \<open>Blocks\<close>

text \<open>
  The fixed code lengths (\<^verbatim>\<open>main\<close>, lines 221-228): five loops over one index.
\<close>

definition fixed_lengths :: "int list" where
  "fixed_lengths =
     map (\<lambda>i. if i < 144 then 8 else if i < 256 then 9 else if i < 280 then 7
               else if i < 288 then 8 else 5) [0..<288 + 30]"

text \<open>
  The head of the description of a dynamic block (\<^verbatim>\<open>main\<close>, lines 203-211): the three
  counts and the lengths of the code-length symbols. The result is the state at line 213:
  the bit reader, the array \<^verbatim>\<open>pretree_lengths\<close> and the two counts
  \<^verbatim>\<open>num_literals_lengths\<close> and \<^verbatim>\<open>num_distances\<close>.
\<close>

definition dynamic_header :: "Bitstream \<Rightarrow> (Bitstream \<times> int list \<times> nat \<times> nat) res" where
  "dynamic_header bs =
     (case getbits bs 5 of
        Inl e \<Rightarrow> Inl e
      | Inr (hlit, bs1) \<Rightarrow>
     (case getbits bs1 5 of
        Inl e \<Rightarrow> Inl e
      | Inr (hdist, bs2) \<Rightarrow>
     (case getbits bs2 4 of
        Inl e \<Rightarrow> Inl e
      | Inr (hclen, bs3) \<Rightarrow>
         (let num_literals_lengths = hlit + 257;
              num_distances = hdist + 1;
              num_pretree = hclen + 4
          in case read_pretree_lengths bs3 num_pretree of
               Inl e \<Rightarrow> Inl e
             | Inr (bs4, pretree_lengths) \<Rightarrow>
                 Inr (bs4, pretree_lengths, num_literals_lengths, num_distances)))))"

text \<open>
  The description of a dynamic block (\<^verbatim>\<open>main\<close>, lines 203-219): the head, then the tree
  of the code-length symbols and one call of \<^verbatim>\<open>deflate_decode_pretree\<close>. The result
  carries the bit reader, the one \<^verbatim>\<open>lengths\<close> array and the two counts.
\<close>

definition dynamic_lengths ::
  "symreader \<Rightarrow> Bitstream \<Rightarrow> int list \<Rightarrow> (Bitstream \<times> int list \<times> nat \<times> nat) res"
where
  "dynamic_lengths rs bs lengths =
     (case dynamic_header bs of
        Inl e \<Rightarrow> Inl e
      | Inr (bs4, pretree_lengths, num_literals_lengths, num_distances) \<Rightarrow>
          (case deflate_decode_pretree rs (init_hufftree pretree_lengths 19) bs4 lengths
                  (num_literals_lengths + num_distances) of
             Inl e \<Rightarrow> Inl e
           | Inr (bs5, lengths') \<Rightarrow>
               Inr (bs5, lengths', num_literals_lengths, num_distances)))"

text \<open>
  The match branch of the symbol loop (\<^verbatim>\<open>main\<close>, lines 244-249), entered with the
  already decremented \<^verbatim>\<open>code\<close>. \<^verbatim>\<open>base_lengths\<close> and \<^verbatim>\<open>extra_len_bits\<close> have 29
  entries, \<^verbatim>\<open>base_dists\<close> and \<^verbatim>\<open>extra_dist_bits\<close> have 30; no index is checked. The result
  holds the two locals \<^verbatim>\<open>match_len\<close> and \<^verbatim>\<open>match_offset\<close>.
\<close>

definition decode_match ::
  "symreader \<Rightarrow> HuffTree \<Rightarrow> Bitstream \<Rightarrow> int \<Rightarrow> ((nat \<times> nat) \<times> Bitstream) res"
where
  "decode_match rs disttree bs code =
     (if code < 0 \<or> int (length base_lengths) \<le> code then Inl UndefinedBehaviour
      else
        (case getbits bs (extra_len_bits ! nat code) of
           Inl e \<Rightarrow> Inl e
         | Inr (v, bs1) \<Rightarrow>
             (let match_len = base_lengths ! nat code + v in
              case rs disttree bs1 of
                Inl e \<Rightarrow> Inl e
              | Inr (dist, bs2) \<Rightarrow>
                  if dist < 0 \<or> int (length base_dists) \<le> dist then Inl UndefinedBehaviour
                  else
                    (case getbits bs2 (extra_dist_bits ! nat dist) of
                       Inl e \<Rightarrow> Inl e
                     | Inr (w, bs3) \<Rightarrow>
                         (let match_offset = base_dists ! nat dist + w in
                          Inr ((match_len, match_offset), bs3))))))"

text \<open>
  One turn of the inner \<^verbatim>\<open>do { ... } while (code != 256);\<close> (lines 236-252). Both
  branches end without an output: \<^verbatim>\<open>//window.output_literal(code)\<close> and
  \<^verbatim>\<open>//window.copy_match(match_offset, match_len)\<close> are comments, and the two locals of the
  match branch are dropped. The result is the value of \<^verbatim>\<open>code\<close> that the loop test sees
  (after \<^verbatim>\<open>code -= 257\<close> in the match branch) and the bit reader.
\<close>

definition symbol_step :: "symreader \<Rightarrow> HuffTree \<Rightarrow> HuffTree \<Rightarrow> Bitstream \<Rightarrow> (int \<times> Bitstream) res" where
  "symbol_step rs littree disttree bs =
     (case rs littree bs of
        Inl e \<Rightarrow> Inl e
      | Inr (code, bs1) \<Rightarrow>
          if code < 256 then Inr (code, bs1)
          else
            (case decode_match rs disttree bs1 (code - 257) of
               Inl e \<Rightarrow> Inl e
             | Inr (m, bs2) \<Rightarrow> Inr (code - 257, bs2)))"

text \<open>The loop may run forever: \<open>None\<close> is the run that does not return.\<close>

partial_function (option) symbol_loop ::
  "symreader \<Rightarrow> HuffTree \<Rightarrow> HuffTree \<Rightarrow> Bitstream \<Rightarrow> (Bitstream res) option"
where
  "symbol_loop rs littree disttree bs =
     (case symbol_step rs littree disttree bs of
        Inl e \<Rightarrow> Some (Inl e)
      | Inr (code, bs') \<Rightarrow>
          if code \<noteq> 256 then symbol_loop rs littree disttree bs' else Some (Inr bs'))"

text \<open>
  One turn of the outer \<^verbatim>\<open>do { ... } while (!is_last_block);\<close> (lines 193-252).
  \<^verbatim>\<open>int lengths[288 + 30]\<close> is a fresh array in every turn; it is not initialised, and no
  entry is read before it is written (code 16 reads \<^verbatim>\<open>lengths[i - 1]\<close>, written in the
  turn before), so the start value \<open>replicate (288 + 30) 0\<close> is never seen. The two trees
  are built from the first \<^verbatim>\<open>num_literals_lengths\<close> entries and from the entries after
  them.
\<close>

definition decode_block :: "symreader \<Rightarrow> Bitstream \<Rightarrow> ((bool \<times> Bitstream) res) option" where
  "decode_block rs bs =
     (case getbit bs of
        Inl e \<Rightarrow> Some (Inl e)
      | Inr (b, bs1) \<Rightarrow>
     (case getbits bs1 2 of
        Inl e \<Rightarrow> Some (Inl e)
      | Inr (block_type, bs2) \<Rightarrow>
          if block_type = 3 then Some (Inl InvalidBlock)
          else if block_type = 0 then Some (Inl UnsupportedUncompressedBlock)
          else
            (case (if block_type = 2 then dynamic_lengths rs bs2 (replicate (288 + 30) 0)
                   else Inr (bs2, fixed_lengths, 288, 30)) of
               Inl e \<Rightarrow> Some (Inl e)
             | Inr (bs3, lengths, num_literals_lengths, num_distances) \<Rightarrow>
                 (let littree = init_hufftree lengths num_literals_lengths;
                      disttree = init_hufftree (drop num_literals_lengths lengths) num_distances
                  in case symbol_loop rs littree disttree bs3 of
                       None \<Rightarrow> None
                     | Some (Inl e) \<Rightarrow> Some (Inl e)
                     | Some (Inr bs4) \<Rightarrow> Some (Inr (b \<noteq> 0, bs4))))))"

partial_function (option) block_loop :: "symreader \<Rightarrow> Bitstream \<Rightarrow> (Bitstream res) option" where
  "block_loop rs bs =
     Option.bind (decode_block rs bs)
       (\<lambda>r. case r of
          Inl e \<Rightarrow> Some (Inl e)
        | Inr (is_last_block, bs') \<Rightarrow>
            if \<not> is_last_block then block_loop rs bs' else Some (Inr bs'))"

subsection \<open>The program\<close>

text \<open>
  \<^verbatim>\<open>main\<close> from the bytes of the file on (opening and reading the file are left out):
  \<open>gz\<close> is the file, \<open>size\<close> its length. The payload handed to the bit reader starts at
  \<^verbatim>\<open>gz + off\<close> and has the length \<^verbatim>\<open>size - off - 8\<close>, computed in \<^verbatim>\<open>size_t\<close>. After
  the block loop the program frees the buffer, closes the file and returns:
  \<open>Some (Inr ())\<close>. \<open>None\<close> is the run that does not return.
\<close>

definition main :: "symreader \<Rightarrow> byte list \<Rightarrow> (unit res) option" where
  "main rs gz =
     (let size = length gz in
      if size < 10 then Some (Inl FileTooSmall)
      else if \<not> (gz ! 0 = 0x1f \<and> gz ! 1 = 0x8b) then Some (Inl InvalidFileHeader)
      else if gz ! 2 \<noteq> 8 then Some (Inl (UnexpectedCompressionMethod (gz ! 2)))
      else
        (case header_offset gz of
           Inl e \<Rightarrow> Some (Inl e)
         | Inr off \<Rightarrow>
             (case bitstream_init (drop off gz) (nat ((int size - int off - 8) mod 2 ^ 64)) of
                Inl e \<Rightarrow> Some (Inl e)
              | Inr bitstream \<Rightarrow>
                  (case block_loop rs bitstream of
                     None \<Rightarrow> None
                   | Some (Inl e) \<Rightarrow> Some (Inl e)
                   | Some (Inr bs') \<Rightarrow> Some (Inr ())))))"

subsection \<open>Notions for stating the properties\<close>

text \<open>
  The bit stream of a buffer in DEFLATE order: bit \<open>k\<close> of the stream is bit \<open>k mod 8\<close>
  (counted from the least significant) of byte \<open>k div 8\<close>. The position of a reader is the
  number of stream bits before its cursor.
\<close>

definition stream_bit :: "byte list \<Rightarrow> nat \<Rightarrow> nat" where
  "stream_bit src k = of_bool (bit (src ! (k div 8)) (k mod 8))"

definition bitpos :: "Bitstream \<Rightarrow> nat" where
  "bitpos bs = 8 * curword bs + curbit bs"

text \<open>
  The states of a reader at work: \<^verbatim>\<open>curbit\<close> is in range, the loaded word is the one at
  \<^verbatim>\<open>curword\<close> while that lies in the payload, and every 16-bit word that \<^verbatim>\<open>getbit\<close> can come
  to load lies inside the allocation (in \<^verbatim>\<open>main\<close> the 8 bytes of the trailer follow the
  payload).
\<close>

definition reader_ok :: "Bitstream \<Rightarrow> bool" where
  "reader_ok bs \<longleftrightarrow>
     curbit bs \<le> 15 \<and>
     (curword bs < source_len bs \<longrightarrow>
        little_uint16t (drop (curword bs) (source bs)) = Inr (curword_val bs)) \<and>
     (\<forall>cw \<in> {curword bs ..< source_len bs}. even (cw - curword bs) \<longrightarrow> cw + 1 < length (source bs))"

text \<open>
  Bit \<open>c mod 16\<close> of a loaded word: what \<^verbatim>\<open>(curword_val >> curbit) & 1\<close> yields when
  \<^verbatim>\<open>curbit\<close> runs on around the same word.
\<close>

definition word_bit :: "16 word \<Rightarrow> nat \<Rightarrow> nat" where
  "word_bit w c = of_bool (bit w (c mod 16))"


subsection \<open>The decoder of the specification, for comparison\<close>

text \<open>
  These definitions follow the words of the specification (its section on the canonical
  Huffman decoder), not the source; \<open>readsym\<close> is compared with them. A code is built
  from the code lengths: the first code of length 1 is 0, the first code of each next
  length is the first code of the length before plus the number of symbols of that length,
  doubled; the symbols of one length get consecutive codes in index order. Decoding reads
  one bit at a time into a running code value and returns the symbol that has the current
  length and value as soon as there is one; past the length 15 it fails.
\<close>

fun spec_first_code :: "nat list \<Rightarrow> nat \<Rightarrow> nat" where
  "spec_first_code lens 0 = 0"
| "spec_first_code lens (Suc 0) = 0"
| "spec_first_code lens (Suc (Suc l)) =
     2 * (spec_first_code lens (Suc l) + count_list lens (Suc l))"

definition spec_code :: "nat list \<Rightarrow> nat \<Rightarrow> nat" where
  "spec_code lens s = spec_first_code lens (lens ! s) + count_list (take s lens) (lens ! s)"

definition spec_lookup :: "nat list \<Rightarrow> nat \<Rightarrow> nat \<Rightarrow> nat option" where
  "spec_lookup lens l c = find (\<lambda>s. lens ! s = l \<and> spec_code lens s = c) [0..<length lens]"

datatype spec_error = InvalidHuffmanCode | ReaderFailed error

function spec_decode_loop ::
  "nat list \<Rightarrow> Bitstream \<Rightarrow> nat \<Rightarrow> nat \<Rightarrow> spec_error + (nat \<times> Bitstream)"
where
  "spec_decode_loop lens bs l c =
     (if 15 < l then Inl InvalidHuffmanCode
      else
        (case getbit bs of
           Inl e \<Rightarrow> Inl (ReaderFailed e)
         | Inr (b, bs') \<Rightarrow>
             (case spec_lookup lens l (2 * c + b) of
                Some s \<Rightarrow> Inr (s, bs')
              | None \<Rightarrow> spec_decode_loop lens bs' (l + 1) (2 * c + b))))"
  by pat_completeness auto
termination
  by (relation "measure (\<lambda>(lens, bs, l, c). 16 - l)") auto

declare spec_decode_loop.simps [simp del]

definition spec_decode :: "nat list \<Rightarrow> Bitstream \<Rightarrow> spec_error + (nat \<times> Bitstream)" where
  "spec_decode lens bs = spec_decode_loop lens bs 1 0"

section \<open>Properties\<close>

subsection \<open>The bit reader reads the stream in order\<close>

lemma le16_Inr:
  "little_uint16t d = Inr w \<longleftrightarrow> 1 < length d \<and> w = push_bit 8 (ucast (d ! 1)) OR ucast (d ! 0)"
  unfolding little_uint16t_def
  by (cases "1 < length d") (simp_all only: if_True if_False sum.inject sum.distinct simp_thms, blast)

lemma and_1_of_bool: "drop_bit c w AND 1 = of_bool (bit (w::16 word) c)"
  by (simp only: and_one_eq bit_iff_odd_drop_bit of_bool_odd_eq_mod_2)

lemma unat_bit: "unat (drop_bit c w AND 1) = of_bool (bit (w::16 word) c)"
  by (cases "bit w c") (simp_all only: and_1_of_bool of_bool_eq unsigned_0 unsigned_1)

lemma word_bit_stream:
  assumes "little_uint16t d = Inr w" "c \<le> 15"
  shows "unat (drop_bit c w AND 1) = stream_bit d c"
proof -
  from assms(1) have w: "w = push_bit 8 (ucast (d ! 1)) OR ucast (d ! 0)"
    by (simp only: le16_Inr)
  have "bit w c = bit (d ! (c div 8)) (c mod 8)"
  proof (cases "c < 8")
    case True
    then show ?thesis by (simp add: w bit_simps)
  next
    case False
    with assms(2) have "c div 8 = 1" "c mod 8 = c - 8" by presburger+
    with False assms(2) show ?thesis by (auto simp add: w bit_simps dest: bit_imp_le_length)
  qed
  then show ?thesis by (simp only: unat_bit stream_bit_def)
qed

lemma stream_bit_drop:
  "k \<le> length src \<Longrightarrow> stream_bit (drop k src) c = stream_bit src (8 * k + c)"
  by (simp add: stream_bit_def)

lemma getbit_step:
  assumes ok: "reader_ok bs" and inb: "bitpos bs < 8 * source_len bs"
  shows "\<exists>bs'. getbit bs = Inr (stream_bit (source bs) (bitpos bs), bs') \<and>
           bitpos bs' = bitpos bs + 1 \<and> source bs' = source bs \<and>
           source_len bs' = source_len bs \<and> reader_ok bs'"
proof -
  from ok have cb: "curbit bs \<le> 15" by (simp add: reader_ok_def)
  from inb cb have cw: "curword bs < source_len bs" by (simp add: bitpos_def)
  with ok have ld: "little_uint16t (drop (curword bs) (source bs)) = Inr (curword_val bs)"
    by (simp add: reader_ok_def)
  then have "1 < length (drop (curword bs) (source bs))" by (simp only: le16_Inr)
  then have le: "curword bs \<le> length (source bs)" by simp
  from ok have mem: "\<And>cw. curword bs \<le> cw \<Longrightarrow> cw < source_len bs \<Longrightarrow> even (cw - curword bs)
      \<Longrightarrow> cw + 1 < length (source bs)" by (simp add: reader_ok_def)
  have b: "unat (drop_bit (curbit bs) (curword_val bs) AND 1) = stream_bit (source bs) (bitpos bs)"
    using word_bit_stream [OF ld cb] stream_bit_drop [OF le] by (simp add: bitpos_def)
  show ?thesis
  proof (cases "curbit bs < 15")
    case True
    then show ?thesis using ok
      by (simp add: getbit_def Let_def b bitpos_def reader_ok_def)
  next
    case False
    with cb have c15: "curbit bs = 15" by simp
    show ?thesis
    proof (cases "curword bs + 2 < source_len bs")
      case True
      then have "curword bs + 2 + 1 < length (source bs)" using mem [of "curword bs + 2"] by simp
      then obtain v where v: "little_uint16t (drop (curword bs + 2) (source bs)) = Inr v"
        by (simp add: le16_Inr)
      have "\<And>cw. curword bs + 2 \<le> cw \<Longrightarrow> cw < source_len bs \<Longrightarrow> even (cw - (curword bs + 2))
          \<Longrightarrow> cw + 1 < length (source bs)"
        using mem by auto 
      then show ?thesis using True c15 v b
        by (simp add: getbit_def Let_def bitpos_def reader_ok_def)
    next
      case False
      then show ?thesis using c15 b
        by (simp add: getbit_def Let_def bitpos_def reader_ok_def)
    qed
  qed
qed

lemma or_push: "bits < 2 ^ i \<Longrightarrow> (bits::nat) OR push_bit i b = bits + b * 2 ^ i"
proof -
  assume a: "bits < 2 ^ i"
  have "bits AND push_bit i b = 0"
  proof (rule bit_eqI)
    fix k
    show "bit (bits AND push_bit i b) k = bit (0::nat) k"
    proof (cases "k < i")
      case True then show ?thesis by (simp add: bit_simps)
    next
      case False
      then have "2 ^ i \<le> (2::nat) ^ k" by (simp add: power_increasing)
      with a have "bits < 2 ^ k" by (rule less_le_trans)
      then have "\<not> bit bits k" by (simp add: bit_iff_odd)
      then show ?thesis by (simp add: bit_simps)
    qed
  qed
  then have "bits + push_bit i b = bits OR push_bit i b" by (rule disjunctive_add_eq_or)
  then show ?thesis by (simp add: push_bit_eq_mult)
qed


lemma stream_bit_le1: "stream_bit src k \<le> 1"
  by (simp add: stream_bit_def)

lemma getbits_loop_stream:
  assumes "reader_ok bs" "i \<le> n" "bitpos bs + (n - i) \<le> 8 * source_len bs" "bits < 2 ^ i"
  shows "\<exists>bs'. getbits_loop bs n i bits =
            Inr (bits + (\<Sum>j<n - i. stream_bit (source bs) (bitpos bs + j) * 2 ^ (i + j)), bs') \<and>
           bitpos bs' = bitpos bs + (n - i) \<and> source bs' = source bs \<and>
           source_len bs' = source_len bs \<and> reader_ok bs'"
  using assms
proof (induction bs n i bits rule: getbits_loop.induct)
  case (1 bs n i bits)
  show ?case
  proof (cases "i < n")
    case False
    with "1.prems" show ?thesis by (simp add: getbits_loop.simps)
  next
    case True
    with "1.prems" have "bitpos bs < 8 * source_len bs" by simp
    from getbit_step [OF "1.prems"(1) this] obtain bs1 where
      g: "getbit bs = Inr (stream_bit (source bs) (bitpos bs), bs1)" and
      p: "bitpos bs1 = bitpos bs + 1" and s: "source bs1 = source bs" and
      l: "source_len bs1 = source_len bs" and ok: "reader_ok bs1" by blast
    let ?b = "stream_bit (source bs) (bitpos bs)"
    have or: "bits OR push_bit i ?b = bits + ?b * 2 ^ i"
      using "1.prems"(4) by (rule or_push)
    have le: "?b * 2 ^ i \<le> 2 ^ i" by (metis mult_le_mono1 stream_bit_le1 nat_mult_1)
    have lt: "bits + ?b * 2 ^ i < 2 ^ (i + 1)"
      using add_less_le_mono [OF "1.prems"(4) le] by simp
    have b3: "bitpos bs1 + (n - (i + 1)) \<le> 8 * source_len bs1"
      using True "1.prems"(3) p l by simp
    from "1.IH" [OF True g refl ok _ b3] True lt or
    obtain bs' where
      r: "getbits_loop bs1 n (i + 1) (bits + ?b * 2 ^ i) =
            Inr (bits + ?b * 2 ^ i +
                 (\<Sum>j<n - (i + 1). stream_bit (source bs1) (bitpos bs1 + j) * 2 ^ (i + 1 + j)), bs')" and
      rest: "bitpos bs' = bitpos bs1 + (n - (i + 1))" "source bs' = source bs1"
        "source_len bs' = source_len bs1" "reader_ok bs'"
      by auto
    from True obtain m where m: "n - i = Suc m" by (cases "n - i") auto
    then have m': "n - (i + 1) = m" by simp
    have sum: "(\<Sum>j<n - i. stream_bit (source bs) (bitpos bs + j) * 2 ^ (i + j)) =
        ?b * 2 ^ i + (\<Sum>j<n - (i + 1). stream_bit (source bs1) (bitpos bs1 + j) * 2 ^ (i + 1 + j))"
      unfolding m m'
      using sum.lessThan_Suc_shift [of "\<lambda>j. stream_bit (source bs) (bitpos bs + j) * 2 ^ (i + j)" m]
      by (simp add: p s del: sum.lessThan_Suc)
    have "getbits_loop bs n i bits = getbits_loop bs1 n (i + 1) (bits OR push_bit i ?b)"
      using True g by (subst getbits_loop.simps) simp
    with r or sum rest p s l True show ?thesis by simp 
  qed
qed

text \<open>
  Claim C3. For \<open>n \<le> 16\<close> and a reader at work whose next \<open>n\<close> bits lie inside the
  payload, \<^verbatim>\<open>getbits\<close> returns without an error, its value is the sum over \<open>i < n\<close> of
  stream bit \<open>bitpos + i\<close> times \<open>2 ^ i\<close> (the first bit read is the least significant,
  and the stream order runs on across byte and word boundaries with no reversal), and the
  reader has advanced by exactly \<open>n\<close> bits and is still a reader at work.
\<close>

theorem getbits_stream_order:
  assumes "n \<le> 16" "reader_ok bs" "bitpos bs + n \<le> 8 * source_len bs"
  shows "\<exists>bs'. getbits bs n = Inr ((\<Sum>i<n. stream_bit (source bs) (bitpos bs + i) * 2 ^ i), bs') \<and>
           bitpos bs' = bitpos bs + n \<and> source bs' = source bs \<and>
           source_len bs' = source_len bs \<and> reader_ok bs'"
  using getbits_loop_stream [of bs 0 n 0] assms by (simp add: getbits_def)


text \<open>
  The theorem at work: 9 bits read from bit 5 of the bytes \<open>B5 6A\<close>, across the byte
  boundary.
\<close>

theorem getbits_stream_order_witness:
  "(9::nat) \<le> 16 \<and>
   reader_ok \<lparr>curbit = 5, curword = 0, curword_val = 0x6AB5, source = [0xB5, 0x6A, 0x33, 0x00], source_len = 4\<rparr> \<and>
   bitpos \<lparr>curbit = 5, curword = 0, curword_val = 0x6AB5, source = [0xB5, 0x6A, 0x33, 0x00], source_len = 4\<rparr> + 9
     \<le> 8 * source_len \<lparr>curbit = 5, curword = 0, curword_val = 0x6AB5, source = [0xB5, 0x6A, 0x33, 0x00], source_len = 4\<rparr> \<and>
   (\<exists>bs'. getbits \<lparr>curbit = 5, curword = 0, curword_val = 0x6AB5, source = [0xB5, 0x6A, 0x33, 0x00], source_len = 4\<rparr> 9
            = Inr (341, bs') \<and> bitpos bs' = 14)"
proof -
  let ?B = "\<lparr>curbit = 5, curword = 0, curword_val = 0x6AB5, source = [0xB5, 0x6A, 0x33, 0x00], source_len = 4\<rparr>"
  have h1: "(9::nat) \<le> 16" by simp
  have h2: "reader_ok ?B" by code_simp
  have h3: "bitpos ?B + 9 \<le> 8 * source_len ?B" by code_simp
  have v: "(\<Sum>i<9. stream_bit (source ?B) (bitpos ?B + i) * 2 ^ i) = 341" by code_simp
  have p: "bitpos ?B + 9 = 14" by code_simp
  from getbits_stream_order [OF h1 h2 h3] h1 h2 h3 show ?thesis
    unfolding v p by blast
qed


subsection \<open>The bit reader at the end of the buffer\<close>

lemma word_bit_le1: "word_bit w c \<le> 1"
  by (simp add: word_bit_def)

lemma getbit_past_end_step:
  assumes "curbit bs \<le> 15" "8 * source_len bs \<le> bitpos bs"
  shows "getbit bs = Inr (word_bit (curword_val bs) (curbit bs),
           if curbit bs = 15 then bs\<lparr>curbit := 0, curword := curword bs + 2\<rparr>
           else bs\<lparr>curbit := curbit bs + 1\<rparr>)"
  using assms by (simp add: getbit_def Let_def unat_bit word_bit_def bitpos_def)

lemma getbit_past_end_ex:
  assumes "curbit bs \<le> 15" "8 * source_len bs \<le> bitpos bs"
  shows "\<exists>bs1. getbit bs = Inr (word_bit (curword_val bs) (curbit bs), bs1) \<and>
           curbit bs1 \<le> 15 \<and> curbit bs1 = (curbit bs + 1) mod 16 \<and>
           curword_val bs1 = curword_val bs \<and> bitpos bs1 = bitpos bs + 1 \<and>
           source bs1 = source bs \<and> source_len bs1 = source_len bs"
proof (cases "curbit bs = 15")
  case True
  with getbit_past_end_step [OF assms] show ?thesis by (simp add: bitpos_def)
next
  case False
  with getbit_past_end_step [OF assms] assms(1) show ?thesis by (simp add: bitpos_def)
qed

lemma getbits_loop_past_end:
  assumes "curbit bs \<le> 15" "8 * source_len bs \<le> bitpos bs" "i \<le> n" "bits < 2 ^ i"
  shows "\<exists>bs'. getbits_loop bs n i bits =
            Inr (bits + (\<Sum>j<n - i. word_bit (curword_val bs) (curbit bs + j) * 2 ^ (i + j)), bs') \<and>
           curword_val bs' = curword_val bs \<and> curbit bs' = (curbit bs + (n - i)) mod 16 \<and>
           bitpos bs' = bitpos bs + (n - i) \<and> source bs' = source bs \<and>
           source_len bs' = source_len bs"
  using assms
proof (induction bs n i bits rule: getbits_loop.induct)
  case (1 bs n i bits)
  show ?case
  proof (cases "i < n")
    case False
    with "1.prems" show ?thesis by (simp add: getbits_loop.simps)
  next
    case True
    let ?b = "word_bit (curword_val bs) (curbit bs)"
    from getbit_past_end_ex [OF "1.prems"(1,2)] obtain bs1 where
      g: "getbit bs = Inr (?b, bs1)" and c1: "curbit bs1 \<le> 15" and
      cm: "curbit bs1 = (curbit bs + 1) mod 16" and w: "curword_val bs1 = curword_val bs" and
      p: "bitpos bs1 = bitpos bs + 1" and s: "source bs1 = source bs" and
      l: "source_len bs1 = source_len bs" by blast
    have e: "8 * source_len bs1 \<le> bitpos bs1" using "1.prems"(2) unfolding p l by simp
    have or: "bits OR push_bit i ?b = bits + ?b * 2 ^ i"
      using "1.prems"(4) by (rule or_push)
    have le: "?b * 2 ^ i \<le> 2 ^ i" by (metis mult_le_mono1 word_bit_le1 nat_mult_1)
    have lt: "bits OR push_bit i ?b < 2 ^ (i + 1)"
      unfolding or using add_less_le_mono [OF "1.prems"(4) le] by simp
    from True have i1: "i + 1 \<le> n" by simp
    from "1.IH" [OF True g refl c1 e i1 lt]
    obtain bs' where
      r: "getbits_loop bs1 n (i + 1) (bits OR push_bit i ?b) =
            Inr ((bits OR push_bit i ?b) +
                 (\<Sum>j<n - (i + 1). word_bit (curword_val bs1) (curbit bs1 + j) * 2 ^ (i + 1 + j)), bs')" and
      rest: "curword_val bs' = curword_val bs1" "curbit bs' = (curbit bs1 + (n - (i + 1))) mod 16"
        "bitpos bs' = bitpos bs1 + (n - (i + 1))" "source bs' = source bs1"
        "source_len bs' = source_len bs1"
      by blast
    from True obtain m where m: "n - i = Suc m" by (cases "n - i") auto
    then have m': "n - (i + 1) = m" by simp
    have wb: "\<And>j. word_bit (curword_val bs) (curbit bs1 + j) = word_bit (curword_val bs) (curbit bs + Suc j)"
      unfolding cm word_bit_def by (simp add: mod_add_left_eq)
    have sum: "(\<Sum>j<n - i. word_bit (curword_val bs) (curbit bs + j) * 2 ^ (i + j)) =
        ?b * 2 ^ i + (\<Sum>j<n - (i + 1). word_bit (curword_val bs1) (curbit bs1 + j) * 2 ^ (i + 1 + j))"
      unfolding m m' w wb
      using sum.lessThan_Suc_shift [of "\<lambda>j. word_bit (curword_val bs) (curbit bs + j) * 2 ^ (i + j)" m]
      by (simp del: sum.lessThan_Suc)
    have cb: "curbit bs' = (curbit bs + (n - i)) mod 16"
      unfolding rest(2) cm m m' by (simp add: mod_add_left_eq)
    have pp: "bitpos bs' = bitpos bs + (n - i)" using rest(3) p True by simp
    have "getbits_loop bs n i bits = getbits_loop bs1 n (i + 1) (bits OR push_bit i ?b)"
      using True g by (subst getbits_loop.simps) simp
    with r or sum have "getbits_loop bs n i bits =
        Inr (bits + (\<Sum>j<n - i. word_bit (curword_val bs) (curbit bs + j) * 2 ^ (i + j)), bs')"
      by simp
    with rest(1,4,5) cb pp w s l show ?thesis by simp
  qed
qed

text \<open>
  Claim C4, as the code has it. Once the cursor has reached the end of the payload
  (\<open>8 * source_len \<le> bitpos\<close>), \<^verbatim>\<open>getbit\<close> and \<^verbatim>\<open>getbits\<close> do not fail: no new word is
  loaded and nothing is read from memory; the calls return the bits of the word loaded last,
  going round its 16 bits, and the cursor moves on.
\<close>

theorem bit_reader_past_end:
  assumes "curbit bs \<le> 15" "8 * source_len bs \<le> bitpos bs" "n \<le> 16"
  shows "getbit bs = Inr (word_bit (curword_val bs) (curbit bs),
           if curbit bs = 15 then bs\<lparr>curbit := 0, curword := curword bs + 2\<rparr>
           else bs\<lparr>curbit := curbit bs + 1\<rparr>) \<and>
         (\<exists>bs'. getbits bs n =
            Inr ((\<Sum>i<n. word_bit (curword_val bs) (curbit bs + i) * 2 ^ i), bs') \<and>
            curword_val bs' = curword_val bs \<and> bitpos bs' = bitpos bs + n \<and>
            source bs' = source bs \<and> source_len bs' = source_len bs)"
  using getbit_past_end_step [OF assms(1,2)] getbits_loop_past_end [OF assms(1,2), of 0 n 0]
  unfolding getbits_def by auto




theorem bit_reader_past_end_witness:
  "curbit \<lparr>curbit = 14, curword = 2, curword_val = 0xA5C3, source = [0xC3, 0xA5], source_len = 2\<rparr> \<le> 15 \<and>
   8 * source_len \<lparr>curbit = 14, curword = 2, curword_val = 0xA5C3, source = [0xC3, 0xA5], source_len = 2\<rparr>
     \<le> bitpos \<lparr>curbit = 14, curword = 2, curword_val = 0xA5C3, source = [0xC3, 0xA5], source_len = 2\<rparr> \<and>
   (4::nat) \<le> 16 \<and>
   getbit \<lparr>curbit = 14, curword = 2, curword_val = 0xA5C3, source = [0xC3, 0xA5], source_len = 2\<rparr>
     = Inr (0, \<lparr>curbit = 15, curword = 2, curword_val = 0xA5C3, source = [0xC3, 0xA5], source_len = 2\<rparr>) \<and>
   (\<exists>bs'. getbits \<lparr>curbit = 14, curword = 2, curword_val = 0xA5C3, source = [0xC3, 0xA5], source_len = 2\<rparr> 4
             = Inr (14, bs') \<and> curword_val bs' = 0xA5C3 \<and> bitpos bs' = 34)"
proof -
  let ?B = "\<lparr>curbit = 14, curword = 2, curword_val = 0xA5C3, source = [0xC3, 0xA5], source_len = 2\<rparr>"
  have h1: "curbit ?B \<le> 15" by simp
  have h2: "8 * source_len ?B \<le> bitpos ?B" by (simp add: bitpos_def)
  have h3: "(4::nat) \<le> 16" by simp
  have b: "word_bit (curword_val ?B) (curbit ?B) = 0" by code_simp
  have v: "(\<Sum>i<4. word_bit (curword_val ?B) (curbit ?B + i) * 2 ^ i) = 14" by code_simp
  have p: "bitpos ?B + 4 = 34" by (simp add: bitpos_def)
  from bit_reader_past_end [OF h1 h2 h3] h1 h2 h3 show ?thesis
    unfolding v p b by auto
qed



text \<open>
  Claim C4 as stated fails: a reader over the two bytes \<open>FF FF\<close> that has read all 16 bits
  stands at the end of the buffer; the next \<^verbatim>\<open>getbit\<close> returns the bit 1 and the next
  \<^verbatim>\<open>getbits\<close> of 3 bits returns 7, where the claim has an error.
\<close>

theorem getbit_at_end_counterexample:
  "bitstream_init [0xFF, 0xFF] 2
     = Inr \<lparr>curbit = 0, curword = 0, curword_val = 0xFFFF, source = [0xFF, 0xFF], source_len = 2\<rparr> \<and>
   getbits \<lparr>curbit = 0, curword = 0, curword_val = 0xFFFF, source = [0xFF, 0xFF], source_len = 2\<rparr> 16
     = Inr (65535, \<lparr>curbit = 0, curword = 2, curword_val = 0xFFFF, source = [0xFF, 0xFF], source_len = 2\<rparr>) \<and>
   bitpos \<lparr>curbit = 0, curword = 2, curword_val = 0xFFFF, source = [0xFF, 0xFF], source_len = 2\<rparr>
     = 8 * length [0xFF, 0xFF :: byte] \<and>
   getbit \<lparr>curbit = 0, curword = 2, curword_val = 0xFFFF, source = [0xFF, 0xFF], source_len = 2\<rparr>
     = Inr (1, \<lparr>curbit = 1, curword = 2, curword_val = 0xFFFF, source = [0xFF, 0xFF], source_len = 2\<rparr>) \<and>
   getbits \<lparr>curbit = 0, curword = 2, curword_val = 0xFFFF, source = [0xFF, 0xFF], source_len = 2\<rparr> 3
     = Inr (7, \<lparr>curbit = 3, curword = 2, curword_val = 0xFFFF, source = [0xFF, 0xFF], source_len = 2\<rparr>)"
  by (simp add: bitstream_init_def little_uint16t_def getbits_def getbits_loop.simps getbit_def
      bitpos_def)

subsection \<open>The length and distance tables\<close>

lemma fold_update_shift:
  "n + c \<le> length xs \<Longrightarrow>
   fold (\<lambda>i a. a[i + c := g i]) [0..<n] xs = take c xs @ map g [0..<n] @ drop (n + c) xs"
proof (induction n)
  case 0
  then show ?case by simp
next
  case (Suc n)
  then have IH: "fold (\<lambda>i a. a[i + c := g i]) [0..<n] xs = take c xs @ map g [0..<n] @ drop (n + c) xs"
    by simp
  from Suc.prems have d: "drop (n + c) xs = xs ! (n + c) # drop (Suc n + c) xs"
    by (simp add: Cons_nth_drop_Suc)
  from Suc.prems have l: "length (take c xs @ map g [0..<n]) = n + c" by simp
  have "(take c xs @ map g [0..<n] @ drop (n + c) xs)[n + c := g n] =
        (take c xs @ map g [0..<n]) @ (drop (n + c) xs)[0 := g n]"
    using l by (simp add: list_update_append)
  also have "\<dots> = take c xs @ map g [0..<Suc n] @ drop (Suc n + c) xs"
    by (simp add: d)
  finally show ?case by (simp add: IH)
qed

lemma fold_running:
  "n \<le> length xs \<Longrightarrow>
   fold (\<lambda>i (a, b). (a[i := b], b + h i)) [0..<n] (xs, b0) =
     (map (\<lambda>i. b0 + sum h {..<i}) [0..<n] @ drop n xs, b0 + sum h {..<n})"
proof (induction n)
  case 0
  then show ?case by simp
next
  case (Suc n)
  then have IH: "fold (\<lambda>i (a, b). (a[i := b], b + h i)) [0..<n] (xs, b0) =
     (map (\<lambda>i. b0 + sum h {..<i}) [0..<n] @ drop n xs, b0 + sum h {..<n})" by simp
  from Suc.prems have d: "drop n xs = xs ! n # drop (Suc n) xs"
    by (simp add: Cons_nth_drop_Suc)
  have l: "length (map (\<lambda>i. b0 + sum h {..<i}) [0..<n]) = n" by simp
  have "(map (\<lambda>i. b0 + sum h {..<i}) [0..<n] @ drop n xs)[n := b0 + sum h {..<n}] =
        map (\<lambda>i. b0 + sum h {..<i}) [0..<n] @ (drop n xs)[0 := b0 + sum h {..<n}]"
    using l by (simp add: list_update_append)
  also have "\<dots> = map (\<lambda>i. b0 + sum h {..<i}) [0..<Suc n] @ drop (Suc n) xs"
    by (simp add: d)
  finally show ?case by (simp add: IH add.assoc)
qed

lemma extra_len_bits_form:
  "extra_len_bits = replicate 4 0 @ map (\<lambda>i. i div 4) [0..<24] @ [0]"
proof -
  have "fold (\<lambda>i a. a[i + 4 := i div 4]) [0..<24] (replicate 29 0) =
        take 4 (replicate 29 0) @ map (\<lambda>i. i div 4) [0..<24] @ drop (24 + 4) (replicate 29 0)"
    by (rule fold_update_shift) simp
  also have "\<dots> = replicate 4 0 @ map (\<lambda>i. i div 4) [0..<24] @ [0]" by simp
  finally have "fold (\<lambda>i a. a[i + 4 := i div 4]) [0..<24] (replicate 29 0) =
       (replicate 4 0 @ map (\<lambda>i. i div 4) [0..<24]) @ [0]" by simp
  moreover have "length (replicate 4 (0::nat) @ map (\<lambda>i. i div 4) [0..<24]) = 28" by simp
  ultimately show ?thesis
    by (simp add: extra_len_bits_def list_update_append)
qed

lemma extra_len_bits_eq:
  "extra_len_bits = [0,0,0,0,0,0,0,0,1,1,1,1,2,2,2,2,3,3,3,3,4,4,4,4,5,5,5,5,0]"
  unfolding extra_len_bits_form by code_simp


lemma base_lengths_form:
  "base_lengths = (map (\<lambda>i. 3 + (\<Sum>j<i. 2 ^ (extra_len_bits ! j))) [0..<29])[28 := 258]"
proof -
  have "fold (\<lambda>i (a, base_length). (a[i := base_length], base_length + 2 ^ (extra_len_bits ! i)))
          [0..<29] (replicate 29 0, 3::nat) =
        (map (\<lambda>i. 3 + (\<Sum>j<i. 2 ^ (extra_len_bits ! j))) [0..<29] @ drop 29 (replicate 29 0),
         3 + (\<Sum>j<29. 2 ^ (extra_len_bits ! j)))"
    by (rule fold_running) simp
  then show ?thesis by (simp add: base_lengths_def)
qed

lemma extra_dist_bits_form:
  "extra_dist_bits = replicate 2 0 @ map (\<lambda>i. i div 2) [0..<28]"
proof -
  have "fold (\<lambda>i a. a[i + 2 := i div 2]) [0..<28] (replicate 30 0) =
        take 2 (replicate 30 0) @ map (\<lambda>i. i div 2) [0..<28] @ drop (28 + 2) (replicate 30 0)"
    by (rule fold_update_shift) simp
  then show ?thesis by (simp add: extra_dist_bits_def)
qed

lemma base_dists_form:
  "base_dists = map (\<lambda>i. 1 + (\<Sum>j<i. 2 ^ (extra_dist_bits ! j))) [0..<30]"
proof -
  have "fold (\<lambda>i (a, base_dist). (a[i := base_dist], base_dist + 2 ^ (extra_dist_bits ! i)))
          [0..<30] (replicate 30 0, 1::nat) =
        (map (\<lambda>i. 1 + (\<Sum>j<i. 2 ^ (extra_dist_bits ! j))) [0..<30] @ drop 30 (replicate 30 0),
         1 + (\<Sum>j<30. 2 ^ (extra_dist_bits ! j)))"
    by (rule fold_running) simp
  then show ?thesis by (simp add: base_dists_def)
qed

lemma extra_dist_bits_eq:
  "extra_dist_bits = [0,0,0,0,1,1,2,2,3,3,4,4,5,5,6,6,7,7,8,8,9,9,10,10,11,11,12,12,13,13]"
  unfolding extra_dist_bits_form by code_simp

lemma length_progression:
  "i < 27 \<Longrightarrow> base_lengths ! (i + 1) = base_lengths ! i + 2 ^ (extra_len_bits ! i)"
  unfolding base_lengths_form by (simp del: upt_Suc upt_rec_numeral)

lemma dist_progression:
  "i < 29 \<Longrightarrow> base_dists ! (i + 1) = base_dists ! i + 2 ^ (extra_dist_bits ! i)"
  unfolding base_dists_form by (simp del: upt_Suc upt_rec_numeral)


lemma length_progression_pred:
  "0 < k \<Longrightarrow> k < 28 \<Longrightarrow> base_lengths ! k = base_lengths ! (k - 1) + 2 ^ (extra_len_bits ! (k - 1))"
  using length_progression [of "k - 1"] by simp

lemma dist_progression_pred:
  "0 < k \<Longrightarrow> k < 30 \<Longrightarrow> base_dists ! k = base_dists ! (k - 1) + 2 ^ (extra_dist_bits ! (k - 1))"
  using dist_progression [of "k - 1"] by simp

lemma base_lengths_eq:
  "base_lengths =
     [3, 4, 5, 6, 7, 8, 9, 10, 11, 13, 15, 17, 19, 23, 27, 31, 35, 43, 51, 59, 67, 83, 99, 115, 131, 163, 195, 227, 258]"
proof -
  have n0: "base_lengths ! 0 = 3" by (simp add: base_lengths_form)
  have n1: "base_lengths ! 1 = 4" using length_progression_pred [of 1] n0 by (simp add: extra_len_bits_eq)
  have n2: "base_lengths ! 2 = 5" using length_progression_pred [of 2] n1 by (simp add: extra_len_bits_eq)
  have n3: "base_lengths ! 3 = 6" using length_progression_pred [of 3] n2 by (simp add: extra_len_bits_eq)
  have n4: "base_lengths ! 4 = 7" using length_progression_pred [of 4] n3 by (simp add: extra_len_bits_eq)
  have n5: "base_lengths ! 5 = 8" using length_progression_pred [of 5] n4 by (simp add: extra_len_bits_eq)
  have n6: "base_lengths ! 6 = 9" using length_progression_pred [of 6] n5 by (simp add: extra_len_bits_eq)
  have n7: "base_lengths ! 7 = 10" using length_progression_pred [of 7] n6 by (simp add: extra_len_bits_eq)
  have n8: "base_lengths ! 8 = 11" using length_progression_pred [of 8] n7 by (simp add: extra_len_bits_eq)
  have n9: "base_lengths ! 9 = 13" using length_progression_pred [of 9] n8 by (simp add: extra_len_bits_eq)
  have n10: "base_lengths ! 10 = 15" using length_progression_pred [of 10] n9 by (simp add: extra_len_bits_eq)
  have n11: "base_lengths ! 11 = 17" using length_progression_pred [of 11] n10 by (simp add: extra_len_bits_eq)
  have n12: "base_lengths ! 12 = 19" using length_progression_pred [of 12] n11 by (simp add: extra_len_bits_eq)
  have n13: "base_lengths ! 13 = 23" using length_progression_pred [of 13] n12 by (simp add: extra_len_bits_eq)
  have n14: "base_lengths ! 14 = 27" using length_progression_pred [of 14] n13 by (simp add: extra_len_bits_eq)
  have n15: "base_lengths ! 15 = 31" using length_progression_pred [of 15] n14 by (simp add: extra_len_bits_eq)
  have n16: "base_lengths ! 16 = 35" using length_progression_pred [of 16] n15 by (simp add: extra_len_bits_eq)
  have n17: "base_lengths ! 17 = 43" using length_progression_pred [of 17] n16 by (simp add: extra_len_bits_eq)
  have n18: "base_lengths ! 18 = 51" using length_progression_pred [of 18] n17 by (simp add: extra_len_bits_eq)
  have n19: "base_lengths ! 19 = 59" using length_progression_pred [of 19] n18 by (simp add: extra_len_bits_eq)
  have n20: "base_lengths ! 20 = 67" using length_progression_pred [of 20] n19 by (simp add: extra_len_bits_eq)
  have n21: "base_lengths ! 21 = 83" using length_progression_pred [of 21] n20 by (simp add: extra_len_bits_eq)
  have n22: "base_lengths ! 22 = 99" using length_progression_pred [of 22] n21 by (simp add: extra_len_bits_eq)
  have n23: "base_lengths ! 23 = 115" using length_progression_pred [of 23] n22 by (simp add: extra_len_bits_eq)
  have n24: "base_lengths ! 24 = 131" using length_progression_pred [of 24] n23 by (simp add: extra_len_bits_eq)
  have n25: "base_lengths ! 25 = 163" using length_progression_pred [of 25] n24 by (simp add: extra_len_bits_eq)
  have n26: "base_lengths ! 26 = 195" using length_progression_pred [of 26] n25 by (simp add: extra_len_bits_eq)
  have n27: "base_lengths ! 27 = 227" using length_progression_pred [of 27] n26 by (simp add: extra_len_bits_eq)
  have n28: "base_lengths ! 28 = 258" by (simp add: base_lengths_form)
  have u: "[0..<29] = [0, 1, 2, 3, 4, 5, 6, 7, 8, 9, 10, 11, 12, 13, 14, 15, 16, 17, 18, 19, 20, 21, 22, 23, 24, 25, 26, 27, 28]" by code_simp
  have len: "length base_lengths = 29" by (simp add: base_lengths_form)
  have "base_lengths = map ((!) base_lengths) [0..<29]" using map_nth [of base_lengths] by (simp only: len)
  also have "\<dots> =
     [3, 4, 5, 6, 7, 8, 9, 10, 11, 13, 15, 17, 19, 23, 27, 31, 35, 43, 51, 59, 67, 83, 99, 115, 131, 163, 195, 227, 258]"
    using n0 n1 n2 n3 n4 n5 n6 n7 n8 n9 n10 n11 n12 n13 n14 n15 n16 n17 n18 n19 n20 n21 n22 n23 n24 n25 n26 n27 n28 by (simp add: u)
  finally show ?thesis .
qed

lemma base_dists_eq:
  "base_dists =
     [1, 2, 3, 4, 5, 7, 9, 13, 17, 25, 33, 49, 65, 97, 129, 193, 257, 385, 513, 769, 1025, 1537, 2049, 3073, 4097, 6145, 8193, 12289, 16385, 24577]"
proof -
  have n0: "base_dists ! 0 = 1" by (simp add: base_dists_form)
  have n1: "base_dists ! 1 = 2" using dist_progression_pred [of 1] n0 by (simp add: extra_dist_bits_eq)
  have n2: "base_dists ! 2 = 3" using dist_progression_pred [of 2] n1 by (simp add: extra_dist_bits_eq)
  have n3: "base_dists ! 3 = 4" using dist_progression_pred [of 3] n2 by (simp add: extra_dist_bits_eq)
  have n4: "base_dists ! 4 = 5" using dist_progression_pred [of 4] n3 by (simp add: extra_dist_bits_eq)
  have n5: "base_dists ! 5 = 7" using dist_progression_pred [of 5] n4 by (simp add: extra_dist_bits_eq)
  have n6: "base_dists ! 6 = 9" using dist_progression_pred [of 6] n5 by (simp add: extra_dist_bits_eq)
  have n7: "base_dists ! 7 = 13" using dist_progression_pred [of 7] n6 by (simp add: extra_dist_bits_eq)
  have n8: "base_dists ! 8 = 17" using dist_progression_pred [of 8] n7 by (simp add: extra_dist_bits_eq)
  have n9: "base_dists ! 9 = 25" using dist_progression_pred [of 9] n8 by (simp add: extra_dist_bits_eq)
  have n10: "base_dists ! 10 = 33" using dist_progression_pred [of 10] n9 by (simp add: extra_dist_bits_eq)
  have n11: "base_dists ! 11 = 49" using dist_progression_pred [of 11] n10 by (simp add: extra_dist_bits_eq)
  have n12: "base_dists ! 12 = 65" using dist_progression_pred [of 12] n11 by (simp add: extra_dist_bits_eq)
  have n13: "base_dists ! 13 = 97" using dist_progression_pred [of 13] n12 by (simp add: extra_dist_bits_eq)
  have n14: "base_dists ! 14 = 129" using dist_progression_pred [of 14] n13 by (simp add: extra_dist_bits_eq)
  have n15: "base_dists ! 15 = 193" using dist_progression_pred [of 15] n14 by (simp add: extra_dist_bits_eq)
  have n16: "base_dists ! 16 = 257" using dist_progression_pred [of 16] n15 by (simp add: extra_dist_bits_eq)
  have n17: "base_dists ! 17 = 385" using dist_progression_pred [of 17] n16 by (simp add: extra_dist_bits_eq)
  have n18: "base_dists ! 18 = 513" using dist_progression_pred [of 18] n17 by (simp add: extra_dist_bits_eq)
  have n19: "base_dists ! 19 = 769" using dist_progression_pred [of 19] n18 by (simp add: extra_dist_bits_eq)
  have n20: "base_dists ! 20 = 1025" using dist_progression_pred [of 20] n19 by (simp add: extra_dist_bits_eq)
  have n21: "base_dists ! 21 = 1537" using dist_progression_pred [of 21] n20 by (simp add: extra_dist_bits_eq)
  have n22: "base_dists ! 22 = 2049" using dist_progression_pred [of 22] n21 by (simp add: extra_dist_bits_eq)
  have n23: "base_dists ! 23 = 3073" using dist_progression_pred [of 23] n22 by (simp add: extra_dist_bits_eq)
  have n24: "base_dists ! 24 = 4097" using dist_progression_pred [of 24] n23 by (simp add: extra_dist_bits_eq)
  have n25: "base_dists ! 25 = 6145" using dist_progression_pred [of 25] n24 by (simp add: extra_dist_bits_eq)
  have n26: "base_dists ! 26 = 8193" using dist_progression_pred [of 26] n25 by (simp add: extra_dist_bits_eq)
  have n27: "base_dists ! 27 = 12289" using dist_progression_pred [of 27] n26 by (simp add: extra_dist_bits_eq)
  have n28: "base_dists ! 28 = 16385" using dist_progression_pred [of 28] n27 by (simp add: extra_dist_bits_eq)
  have n29: "base_dists ! 29 = 24577" using dist_progression_pred [of 29] n28 by (simp add: extra_dist_bits_eq)
  have u: "[0..<30] = [0, 1, 2, 3, 4, 5, 6, 7, 8, 9, 10, 11, 12, 13, 14, 15, 16, 17, 18, 19, 20, 21, 22, 23, 24, 25, 26, 27, 28, 29]" by code_simp
  have len: "length base_dists = 30" by (simp add: base_dists_form)
  have "base_dists = map ((!) base_dists) [0..<30]" using map_nth [of base_dists] by (simp only: len)
  also have "\<dots> =
     [1, 2, 3, 4, 5, 7, 9, 13, 17, 25, 33, 49, 65, 97, 129, 193, 257, 385, 513, 769, 1025, 1537, 2049, 3073, 4097, 6145, 8193, 12289, 16385, 24577]"
    using n0 n1 n2 n3 n4 n5 n6 n7 n8 n9 n10 n11 n12 n13 n14 n15 n16 n17 n18 n19 n20 n21 n22 n23 n24 n25 n26 n27 n28 n29 by (simp add: u)
  finally show ?thesis .
qed


lemma decode_match_tables:
  assumes "0 \<le> code" "code < 29" "getbits bs (extra_len_bits ! nat code) = Inr (v, bs1)"
    "rs disttree bs1 = Inr (dist, bs2)" "0 \<le> dist" "dist < 30"
    "getbits bs2 (extra_dist_bits ! nat dist) = Inr (w, bs3)"
  shows "decode_match rs disttree bs code =
           Inr ((base_lengths ! nat code + v, base_dists ! nat dist + w), bs3)"
  using assms by (simp add: decode_match_def base_lengths_eq base_dists_eq)

text \<open>
  Claim C7. The four arrays that \<^verbatim>\<open>main\<close> computes are the tables of RFC 1951, section
  3.2.5: entry \<open>i\<close> of \<open>base_lengths\<close> and \<open>extra_len_bits\<close> belongs to length code
  \<open>257 + i\<close>, entry \<open>d\<close> of \<open>base_dists\<close> and \<open>extra_dist_bits\<close> to distance code
  \<open>d\<close>. For the length codes 257 to 284 the bases start at 3 and each next base is the
  base before plus 2 to the power of its extra bits; for the distance codes 0 to 29 the same
  holds from the base 1; length code 285 has no extra bits and the base 258, where the
  progression would give 259.
\<close>

theorem length_distance_tables:
  "extra_len_bits = [0,0,0,0,0,0,0,0,1,1,1,1,2,2,2,2,3,3,3,3,4,4,4,4,5,5,5,5,0] \<and>
   base_lengths =
     [3, 4, 5, 6, 7, 8, 9, 10, 11, 13, 15, 17, 19, 23, 27, 31, 35, 43, 51, 59, 67, 83, 99, 115, 131, 163, 195, 227, 258] \<and>
   extra_dist_bits = [0,0,0,0,1,1,2,2,3,3,4,4,5,5,6,6,7,7,8,8,9,9,10,10,11,11,12,12,13,13] \<and>
   base_dists =
     [1, 2, 3, 4, 5, 7, 9, 13, 17, 25, 33, 49, 65, 97, 129, 193, 257, 385, 513, 769, 1025, 1537, 2049, 3073, 4097, 6145, 8193, 12289, 16385, 24577] \<and>
   base_lengths ! 0 = 3 \<and>
   (\<forall>i<27. base_lengths ! (i + 1) = base_lengths ! i + 2 ^ (extra_len_bits ! i)) \<and>
   base_dists ! 0 = 1 \<and>
   (\<forall>i<29. base_dists ! (i + 1) = base_dists ! i + 2 ^ (extra_dist_bits ! i)) \<and>
   extra_len_bits ! 28 = 0 \<and> base_lengths ! 28 = 258 \<and>
   base_lengths ! 27 + 2 ^ (extra_len_bits ! 27) = 259"
proof -
  have "base_lengths ! 0 = 3" "base_dists ! 0 = 1" "extra_len_bits ! 28 = 0"
    "base_lengths ! 28 = 258" "base_lengths ! 27 + 2 ^ (extra_len_bits ! 27) = 259"
    by (simp_all add: base_lengths_eq base_dists_eq extra_len_bits_eq)
  with extra_len_bits_eq base_lengths_eq extra_dist_bits_eq base_dists_eq
    length_progression dist_progression
  show ?thesis by blast
qed

text \<open>The progressions at length code 265 and at distance code 4.\<close>

theorem length_distance_tables_witness:
  "(8::nat) < 27 \<and> base_lengths ! (8 + 1) = base_lengths ! 8 + 2 ^ (extra_len_bits ! 8) \<and>
   (4::nat) < 29 \<and> base_dists ! (4 + 1) = base_dists ! 4 + 2 ^ (extra_dist_bits ! 4)"
proof -
  from length_distance_tables
  have a: "\<forall>i<27. base_lengths ! (i + 1) = base_lengths ! i + 2 ^ (extra_len_bits ! i)"
    and b: "\<forall>i<29. base_dists ! (i + 1) = base_dists ! i + 2 ^ (extra_dist_bits ! i)"
    by blast+
  have "(8::nat) < 27" "(4::nat) < 29" by simp_all
  with a b show ?thesis by blast
qed

subsection \<open>Stored blocks\<close>

text \<open>
  Claim C8, as the code has it. When the two bits after the final-block bit are 00, the block
  is not decoded: the decoder stops with the fatal error "unsupported uncompressed block"
  right after these three bits. It does not align the cursor, reads neither LEN nor NLEN
  and copies nothing.
\<close>

theorem stored_block_unsupported:
  assumes "getbit bs = Inr (b, bs1)" "getbits bs1 2 = Inr (0, bs2)"
  shows "decode_block rs bs = Some (Inl UnsupportedUncompressedBlock) \<and>
         block_loop rs bs = Some (Inl UnsupportedUncompressedBlock)"
proof -
  have d: "decode_block rs bs = Some (Inl UnsupportedUncompressedBlock)"
    using assms by (simp add: decode_block_def)
  then show ?thesis by (subst block_loop.simps) simp
qed

text \<open>
  The theorem at the block \<open>01 00 00 FF FF\<close>: final, stored, LEN 0, NLEN FFFF.
\<close>

theorem stored_block_unsupported_witness:
  "getbit \<lparr>curbit = 0, curword = 0, curword_val = 0x0001,
           source = [0x01, 0x00, 0x00, 0xFF, 0xFF, 0, 0, 0, 0, 0, 0, 0, 0], source_len = 5\<rparr>
     = Inr (1, \<lparr>curbit = 1, curword = 0, curword_val = 0x0001,
                source = [0x01, 0x00, 0x00, 0xFF, 0xFF, 0, 0, 0, 0, 0, 0, 0, 0], source_len = 5\<rparr>) \<and>
   getbits \<lparr>curbit = 1, curword = 0, curword_val = 0x0001,
            source = [0x01, 0x00, 0x00, 0xFF, 0xFF, 0, 0, 0, 0, 0, 0, 0, 0], source_len = 5\<rparr> 2
     = Inr (0, \<lparr>curbit = 3, curword = 0, curword_val = 0x0001,
                source = [0x01, 0x00, 0x00, 0xFF, 0xFF, 0, 0, 0, 0, 0, 0, 0, 0], source_len = 5\<rparr>) \<and>
   decode_block readsym \<lparr>curbit = 0, curword = 0, curword_val = 0x0001,
            source = [0x01, 0x00, 0x00, 0xFF, 0xFF, 0, 0, 0, 0, 0, 0, 0, 0], source_len = 5\<rparr>
     = Some (Inl UnsupportedUncompressedBlock)"
proof -
  let ?src = "[0x01, 0x00, 0x00, 0xFF, 0xFF, 0, 0, 0, 0, 0, 0, 0, 0] :: byte list"
  have h1: "getbit \<lparr>curbit = 0, curword = 0, curword_val = 0x0001, source = ?src, source_len = 5\<rparr>
     = Inr (1, \<lparr>curbit = 1, curword = 0, curword_val = 0x0001, source = ?src, source_len = 5\<rparr>)"
    by (simp add: getbit_def)
  have h2: "getbits \<lparr>curbit = 1, curword = 0, curword_val = 0x0001, source = ?src, source_len = 5\<rparr> 2
     = Inr (0, \<lparr>curbit = 3, curword = 0, curword_val = 0x0001, source = ?src, source_len = 5\<rparr>)"
    by (simp add: getbits_def getbits_loop.simps getbit_def)
  from stored_block_unsupported [OF h1 h2, of readsym] h1 h2 show ?thesis by blast
qed

text \<open>
  Claim C8 as stated fails: on the gzip file with an empty header, the one stored block
  \<open>01 00 00 FF FF\<close> of length 0 with the matching NLEN, and a zero trailer, the claim has
  the decoder copy 0 bytes and finish the block; the program ends with the fatal error.
\<close>

theorem stored_block_counterexample:
  "main readsym [0x1f, 0x8b, 0x08, 0x00, 0x00, 0x00, 0x00, 0x00, 0x00, 0x03,
                 0x01, 0x00, 0x00, 0xFF, 0xFF,
                 0x00, 0x00, 0x00, 0x00, 0x00, 0x00, 0x00, 0x00]
     = Some (Inl UnsupportedUncompressedBlock)"
  by (simp add: main_def header_offset_def skip_extra_def skip_string_def skip_crc16_def
      bitstream_init_def little_uint16t_def block_loop.simps decode_block_def
      getbits_def getbits_loop.simps getbit_def)


subsection \<open>The extra field of the header\<close>

lemma skip_extra_advance:
  assumes "flags AND 4 \<noteq> 0" "little_uint32t (drop off gz) = Inr extra_size"
  shows "skip_extra flags gz off = Inr (off + (4 + unat extra_size) mod 2 ^ 32)"
  using assms by (simp add: skip_extra_def unat_word_ariths)

lemma skip_extra_no_wrap:
  assumes "flags AND 4 \<noteq> 0" "little_uint32t (drop off gz) = Inr extra_size"
    "unat extra_size < 2 ^ 32 - 4"
  shows "skip_extra flags gz off = Inr (off + 4 + unat extra_size)"
  using assms by (simp add: skip_extra_advance)

lemma skip_extra_absent:
  "flags AND 4 = 0 \<Longrightarrow> skip_extra flags gz off = Inr off"
  by (simp add: skip_extra_def)

text \<open>
  Claim C10 at the header \<open>1F 8B 08 04 ...\<close> with the extra-size bytes \<open>FF FF FF FF\<close>.
  The four bytes after the fixed header are read as the little-endian size 4294967295; the
  claim has the offset advance by 4 plus that size, to 4294967309. The program computes
  \<^verbatim>\<open>4 + extra_size\<close> in 32 bits, which is 3, and goes on at offset 13. For every size up to
  \<open>2 ^ 32 - 5\<close> the advance is 4 plus the size (\<open>skip_extra_no_wrap\<close>).
\<close>

theorem extra_size_wraps:
  "little_uint32t (drop 10 [0x1f, 0x8b, 0x08, 0x04, 0x00, 0x00, 0x00, 0x00, 0x00, 0x03,
                            0xFF, 0xFF, 0xFF, 0xFF, 0x03, 0x00,
                            0x00, 0x00, 0x00, 0x00, 0x00, 0x00, 0x00, 0x00]) = Inr 4294967295 \<and>
   skip_extra 0x04 [0x1f, 0x8b, 0x08, 0x04, 0x00, 0x00, 0x00, 0x00, 0x00, 0x03,
                    0xFF, 0xFF, 0xFF, 0xFF, 0x03, 0x00,
                    0x00, 0x00, 0x00, 0x00, 0x00, 0x00, 0x00, 0x00] 10 = Inr 13 \<and>
   header_offset [0x1f, 0x8b, 0x08, 0x04, 0x00, 0x00, 0x00, 0x00, 0x00, 0x03,
                  0xFF, 0xFF, 0xFF, 0xFF, 0x03, 0x00,
                  0x00, 0x00, 0x00, 0x00, 0x00, 0x00, 0x00, 0x00] = Inr 13"
  by (simp add: header_offset_def skip_extra_def skip_string_def skip_crc16_def little_uint32t_def)

subsection \<open>The description of a dynamic block\<close>




















subsection \<open>The symbol loop\<close>

lemma symbol_step_code:
  assumes "symbol_step rs littree disttree bs = Inr (code, bs')"
  shows "code < 256 \<and> code \<noteq> 256"
proof -
  have "length base_lengths = 29" by (simp add: base_lengths_eq)
  then show ?thesis using assms
    by (auto simp: symbol_step_def decode_match_def Let_def split: sum.splits prod.splits if_splits)
qed

lemma symbol_loop_never_completes:
  assumes "symbol_loop rs littree disttree bs = Some r"
  shows "\<exists>e. r = Inl e"
proof (rule symbol_loop.raw_induct [where P = "\<lambda>rs littree disttree bs r. \<exists>e. r = Inl e", OF _ assms])
  fix f :: "symreader \<Rightarrow> HuffTree \<Rightarrow> HuffTree \<Rightarrow> Bitstream \<Rightarrow> (Bitstream res) option"
    and rs littree disttree bs r
  assume IH: "\<And>rs littree disttree bs y. f rs littree disttree bs = Some y \<Longrightarrow> \<exists>e. y = Inl e"
  assume step: "(case symbol_step rs littree disttree bs of
                   Inl e \<Rightarrow> Some (Inl e)
                 | Inr (code, bs') \<Rightarrow>
                     if code \<noteq> 256 then f rs littree disttree bs' else Some (Inr bs')) = Some r"
  show "\<exists>e. r = Inl e"
  proof (cases "symbol_step rs littree disttree bs")
    case (Inl e)
    with step show ?thesis by auto
  next
    case (Inr p)
    obtain code bs' where p: "p = (code, bs')" by (cases p)
    with Inr symbol_step_code have "code \<noteq> 256" by blast
    with step Inr p have "f rs littree disttree bs' = Some r" by simp
    then show ?thesis by (rule IH)
  qed
qed

lemma symbol_loop_not_readsym:
  assumes "symbol_loop rs littree disttree bs = Some r"
  shows "rs \<noteq> readsym"
proof (rule symbol_loop.raw_induct [where P = "\<lambda>rs littree disttree bs r. rs \<noteq> readsym", OF _ assms])
  fix f :: "symreader \<Rightarrow> HuffTree \<Rightarrow> HuffTree \<Rightarrow> Bitstream \<Rightarrow> (Bitstream res) option"
    and rs littree disttree bs r
  assume IH: "\<And>rs littree disttree bs y. f rs littree disttree bs = Some y \<Longrightarrow> rs \<noteq> readsym"
  assume step: "(case symbol_step rs littree disttree bs of
                   Inl e \<Rightarrow> Some (Inl e)
                 | Inr (code, bs') \<Rightarrow>
                     if code \<noteq> 256 then f rs littree disttree bs' else Some (Inr bs')) = Some r"
  show "rs \<noteq> readsym"
  proof
    assume rs: "rs = readsym"
    have "symbol_step readsym littree disttree bs = Inr (0, bs)"
      by (simp add: symbol_step_def readsym_def)
    with step rs have "f rs littree disttree bs = Some r" by simp
    then have "rs \<noteq> readsym" by (rule IH)
    with rs show False by simp
  qed
qed

lemma symbol_loop_readsym:
  "symbol_loop readsym littree disttree bs = None"
  using symbol_loop_not_readsym [of readsym littree disttree bs]
  by (cases "symbol_loop readsym littree disttree bs") auto


lemma decode_block_never_completes:
  "decode_block rs bs \<noteq> Some (Inr x)"
proof
  assume a: "decode_block rs bs = Some (Inr x)"
  then obtain littree disttree bs3 r where "symbol_loop rs littree disttree bs3 = Some (Inr r)"
    by (auto simp: decode_block_def Let_def split: sum.splits prod.splits if_splits option.splits)
  with symbol_loop_never_completes show False by blast
qed

lemma block_loop_never_completes:
  "block_loop rs bs \<noteq> Some (Inr bs')"
proof (cases "decode_block rs bs")
  case None
  then show ?thesis by (subst block_loop.simps) simp
next
  case (Some r)
  show ?thesis
  proof (cases r)
    case (Inl e)
    with Some show ?thesis by (subst block_loop.simps) simp
  next
    case (Inr x)
    with Some decode_block_never_completes show ?thesis by blast
  qed
qed

lemma main_never_completes:
  "main rs gz \<noteq> Some (Inr ())"
  using block_loop_never_completes [of rs]
  by (auto simp: main_def Let_def split: sum.splits option.splits if_splits)


subsection \<open>The Huffman stub against the decoder of the specification\<close>

lemma spec_lookup_011: "spec_lookup [0, 1, 1] 1 1 = Some 2"
  by (simp add: spec_lookup_def spec_code_def upt_conv_Cons)

lemma spec_lookup_01: "0 < c \<Longrightarrow> spec_lookup [0, 1] l c = None"
  by (simp add: spec_lookup_def spec_code_def upt_conv_Cons)

text \<open>
  Claim C1 at two inputs. For the code lengths \<open>[0, 1, 1]\<close> the canonical construction
  gives symbol 1 the code 0 and symbol 2 the code 1, both of length 1, and symbol 0 no code.
  On a stream that starts with the bit 1 the decoder of the specification reads one bit and
  returns symbol 2; \<^verbatim>\<open>readsym\<close> reads no bit and returns 0, a symbol without a code. For
  the code lengths \<open>[0, 1]\<close> only the code 0 of length 1 exists; on a stream of ones the
  decoder of the specification fails with InvalidHuffmanCode after 15 bits; \<^verbatim>\<open>readsym\<close>
  again reads no bit and returns 0.
\<close>

theorem readsym_returns_zero:
  "spec_code [0, 1, 1] 1 = 0 \<and> spec_code [0, 1, 1] 2 = 1 \<and>
   spec_decode [0, 1, 1]
     \<lparr>curbit = 0, curword = 0, curword_val = 0x0001, source = [0x01, 0x00, 0, 0, 0, 0, 0, 0, 0, 0], source_len = 2\<rparr>
     = Inr (2, \<lparr>curbit = 1, curword = 0, curword_val = 0x0001, source = [0x01, 0x00, 0, 0, 0, 0, 0, 0, 0, 0], source_len = 2\<rparr>) \<and>
   readsym (init_hufftree [0, 1, 1] 3)
     \<lparr>curbit = 0, curword = 0, curword_val = 0x0001, source = [0x01, 0x00, 0, 0, 0, 0, 0, 0, 0, 0], source_len = 2\<rparr>
     = Inr (0, \<lparr>curbit = 0, curword = 0, curword_val = 0x0001, source = [0x01, 0x00, 0, 0, 0, 0, 0, 0, 0, 0], source_len = 2\<rparr>) \<and>
   spec_decode [0, 1]
     \<lparr>curbit = 0, curword = 0, curword_val = 0xFFFF, source = [0xFF, 0xFF, 0, 0, 0, 0, 0, 0, 0, 0], source_len = 2\<rparr>
     = Inl InvalidHuffmanCode \<and>
   readsym (init_hufftree [0, 1] 2)
     \<lparr>curbit = 0, curword = 0, curword_val = 0xFFFF, source = [0xFF, 0xFF, 0, 0, 0, 0, 0, 0, 0, 0], source_len = 2\<rparr>
     = Inr (0, \<lparr>curbit = 0, curword = 0, curword_val = 0xFFFF, source = [0xFF, 0xFF, 0, 0, 0, 0, 0, 0, 0, 0], source_len = 2\<rparr>)"
proof -
  have a: "spec_code [0, 1, 1] 1 = 0 \<and> spec_code [0, 1, 1] 2 = 1"
    by (simp add: spec_code_def)
  have c: "spec_decode [0, 1, 1]
     \<lparr>curbit = 0, curword = 0, curword_val = 0x0001, source = [0x01, 0x00, 0, 0, 0, 0, 0, 0, 0, 0], source_len = 2\<rparr>
     = Inr (2, \<lparr>curbit = 1, curword = 0, curword_val = 0x0001, source = [0x01, 0x00, 0, 0, 0, 0, 0, 0, 0, 0], source_len = 2\<rparr>)"
    using spec_lookup_011 by (simp add: spec_decode_def spec_decode_loop.simps getbit_def)
  have e: "spec_decode [0, 1]
     \<lparr>curbit = 0, curword = 0, curword_val = 0xFFFF, source = [0xFF, 0xFF, 0, 0, 0, 0, 0, 0, 0, 0], source_len = 2\<rparr>
     = Inl InvalidHuffmanCode"
    using spec_lookup_01 by (simp add: spec_decode_def spec_decode_loop.simps getbit_def)
  from a c e show ?thesis by (simp add: readsym_def)
qed

subsection \<open>Literals and matches\<close>

lemma decode_block_readsym_fixed:
  assumes "getbit bs = Inr (b, bs1)" "getbits bs1 2 = Inr (1, bs2)"
  shows "decode_block readsym bs = None"
  using assms by (simp add: decode_block_def symbol_loop_readsym)


text \<open>
  Claim C2 at the stream of the literal \<open>A\<close> followed by the match of length 5 at distance
  1. A turn of the symbol loop on the literal 65 returns the code and the bit reader and
  nothing else: there is no output to append to. For the length code 259 the match branch
  computes the locals \<^verbatim>\<open>match_len = 5\<close> and \<^verbatim>\<open>match_offset = 1\<close> (here with the distance
  symbol 0 that \<^verbatim>\<open>readsym\<close> returns) and drops them: no byte is copied and no distance is
  checked. On the gzip file of this stream (\<open>73 04 03 00\<close>, which inflates to six \<open>A\<close>)
  the program never returns.
\<close>

theorem match_not_copied:
  "symbol_step (\<lambda>ht bs. Inr (65, bs)) HuffTree HuffTree
     \<lparr>curbit = 0, curword = 0, curword_val = 0x0473, source = [0x73, 0x04, 0x03, 0x00, 0x7e, 0xde, 0x1c, 0xaa, 6, 0, 0, 0], source_len = 4\<rparr>
     = Inr (65, \<lparr>curbit = 0, curword = 0, curword_val = 0x0473, source = [0x73, 0x04, 0x03, 0x00, 0x7e, 0xde, 0x1c, 0xaa, 6, 0, 0, 0], source_len = 4\<rparr>) \<and>
   decode_match readsym HuffTree
     \<lparr>curbit = 0, curword = 0, curword_val = 0x0473, source = [0x73, 0x04, 0x03, 0x00, 0x7e, 0xde, 0x1c, 0xaa, 6, 0, 0, 0], source_len = 4\<rparr>
     (259 - 257)
     = Inr ((5, 1), \<lparr>curbit = 0, curword = 0, curword_val = 0x0473, source = [0x73, 0x04, 0x03, 0x00, 0x7e, 0xde, 0x1c, 0xaa, 6, 0, 0, 0], source_len = 4\<rparr>) \<and>
   main readsym [0x1f, 0x8b, 0x08, 0x00, 0x00, 0x00, 0x00, 0x00, 0x00, 0x03,
                 0x73, 0x04, 0x03, 0x00,
                 0x7e, 0xde, 0x1c, 0xaa, 0x06, 0x00, 0x00, 0x00]
     = None"
proof -
  let ?B = "\<lparr>curbit = 0, curword = 0, curword_val = 0x0473,
             source = [0x73, 0x04, 0x03, 0x00, 0x7e, 0xde, 0x1c, 0xaa, 6, 0, 0, 0 :: byte], source_len = 4\<rparr>"
  let ?B1 = "\<lparr>curbit = 1, curword = 0, curword_val = 0x0473,
             source = [0x73, 0x04, 0x03, 0x00, 0x7e, 0xde, 0x1c, 0xaa, 6, 0, 0, 0 :: byte], source_len = 4\<rparr>"
  let ?B3 = "\<lparr>curbit = 3, curword = 0, curword_val = 0x0473,
             source = [0x73, 0x04, 0x03, 0x00, 0x7e, 0xde, 0x1c, 0xaa, 6, 0, 0, 0 :: byte], source_len = 4\<rparr>"
  have s: "symbol_step (\<lambda>ht bs. Inr (65, bs)) HuffTree HuffTree ?B = Inr (65, ?B)"
    by (simp add: symbol_step_def)
  have m: "decode_match readsym HuffTree ?B (259 - 257) = Inr ((5, 1), ?B)"
    by (simp add: decode_match_def readsym_def base_lengths_eq extra_len_bits_eq base_dists_eq
        extra_dist_bits_eq getbits_def getbits_loop.simps)
  have g1: "getbit ?B = Inr (1, ?B1)" by (simp add: getbit_def)
  have g2: "getbits ?B1 2 = Inr (1, ?B3)"
    by (simp add: getbits_def getbits_loop.simps getbit_def)
  have "block_loop readsym ?B = None"
    by (subst block_loop.simps) (simp add: decode_block_readsym_fixed [OF g1 g2])
  then have r: "main readsym [0x1f, 0x8b, 0x08, 0x00, 0x00, 0x00, 0x00, 0x00, 0x00, 0x03,
                 0x73, 0x04, 0x03, 0x00,
                 0x7e, 0xde, 0x1c, 0xaa, 0x06, 0x00, 0x00, 0x00] = None"
    by (simp add: main_def header_offset_def skip_extra_def skip_string_def skip_crc16_def
        bitstream_init_def little_uint16t_def)
  from s m r show ?thesis by simp
qed


subsection \<open>Repeat codes without checks\<close>

text \<open>
  What the branches of \<^verbatim>\<open>deflate_decode_pretree\<close> for the codes 16 and 18 do once a
  symbol reader yields such a code: no branch compares anything with \<^verbatim>\<open>num_lengths\<close> or
  with the size of the array. With the program's own \<^verbatim>\<open>readsym\<close> no run enters them
  (lemma \<open>pretree_loop_readsym\<close>).
\<close>

lemma getbit_error:
  "getbit bs = Inl e \<Longrightarrow> e = UndefinedBehaviour"
  by (auto simp: getbit_def Let_def little_uint16t_def split: if_splits sum.splits)

lemma getbits_loop_error:
  "getbits_loop bs n i bits = Inl e \<Longrightarrow> e = UndefinedBehaviour"
proof (induction bs n i bits rule: getbits_loop.induct)
  case (1 bs n i bits)
  show ?case
  proof (cases "i < n")
    case False
    with "1.prems" show ?thesis by (simp add: getbits_loop.simps)
  next
    case True
    show ?thesis
    proof (cases "getbit bs")
      case (Inl e')
      with True "1.prems" have "e = e'" by (simp add: getbits_loop.simps)
      with Inl getbit_error show ?thesis by blast
    next
      case (Inr p)
      obtain b bs' where p: "p = (b, bs')" by (cases p)
      with True Inr "1.prems" have "getbits_loop bs' n (i + 1) (bits OR push_bit i b) = Inl e"
        by (simp add: getbits_loop.simps)
      with "1.IH" [OF True] Inr p show ?thesis by simp
    qed
  qed
qed

lemma getbits_error:
  "getbits bs n = Inl e \<Longrightarrow> e = UndefinedBehaviour"
  unfolding getbits_def by (rule getbits_loop_error)

lemma repeat_16_first:
  assumes "0 < num_lengths" "rs pretree bs = Inr (16, bs1)"
  shows "deflate_decode_pretree rs pretree bs lengths num_lengths = Inl UndefinedBehaviour"
proof (cases "getbits bs1 2")
  case (Inl e)
  with getbits_error have "e = UndefinedBehaviour" by blast
  with Inl assms show ?thesis
    by (simp add: deflate_decode_pretree_def deflate_decode_pretree_loop.simps)
next
  case (Inr p)
  with assms show ?thesis
    by (cases p) (simp add: deflate_decode_pretree_def deflate_decode_pretree_loop.simps)
qed

lemma repeat_18_past_count:
  assumes "i < num_lengths" "rs pretree bs = Inr (18, bs1)" "getbits bs1 7 = Inr (v, bs2)"
    "num_lengths \<le> i + (11 + v)" "i + (11 + v) \<le> length lengths"
  shows "deflate_decode_pretree_loop rs pretree bs lengths num_lengths i =
           Inr (bs2, take i lengths @ replicate (11 + v) 0 @ drop (i + (11 + v)) lengths)"
  using assms
  by (subst deflate_decode_pretree_loop.simps, subst deflate_decode_pretree_loop.simps)
     (simp add: fill_lengths_def)

lemma repeat_18_past_array:
  assumes "i < num_lengths" "rs pretree bs = Inr (18, bs1)" "getbits bs1 7 = Inr (v, bs2)"
    "length lengths < i + (11 + v)"
  shows "deflate_decode_pretree_loop rs pretree bs lengths num_lengths i = Inl UndefinedBehaviour"
  using assms
  by (subst deflate_decode_pretree_loop.simps) (simp add: fill_lengths_def)





subsection \<open>The trailer\<close>


end
